theory Spec2Isabelle
  imports Complex_Main "HOL-Library.Multiset"
begin

section \<open>Errors raised by the modelled code\<close>

text \<open>
  Every exception the modelled functions can raise is a value of this type; a function
  that may raise returns \<open>error + 'a\<close>, with \<open>Inl\<close> for the exception.
\<close>

datatype error =
    AssertionError
  | ZeroDivisionError
  | UnboundLocalError
  | IndexError
  | TypeError
  | ValueError
  | RuntimeError
  | NotImplementedError

section \<open>The budget allocator \<open>divide_feature\<close>\<close>

text \<open>
  \<open>divide_feature(in_feature, out_features, min_unit)\<close> works on Python integers,
  modelled as \<open>int\<close> (Python's \<open>//\<close> and \<open>%\<close> round towards minus infinity, as
  \<open>div\<close> and \<open>mod\<close> on \<open>int\<close> do). Two float64 operations occur in it:
  \<open>float(units) / sum(out_features)\<close> and \<open>curr_out_feat_size * units_feat_ratio\<close>.
  A float64 is a rational number, so both results are values of type \<open>rat\<close>; the rounding
  that float64 applies to the exact quotient and to the exact product is the parameter
  \<open>rnd\<close> of the model. With \<open>rnd = id\<close> the arithmetic is exact; every theorem stated for
  an arbitrary \<open>rnd\<close> holds whatever the rounding does. The floor division
  \<open>curr_units // n\<close> of a float by an integer is the floor of the exact quotient.
  The 64-bit integers of numpy (the sorted parameter counts and their products with the
  group sizes) are modelled as \<open>int\<close> as well: parameter and channel counts are far
  below \<open>2^63\<close>.
\<close>

text \<open>\<open>np.argsort(out_features)\<close>: the indices in ascending order of their values.
  Indices of equal values are kept in ascending order; the order inside a run of equal
  values does not reach the result, which writes the same number at each of them.\<close>

definition argsort :: "int list \<Rightarrow> nat list" where
  "argsort out_features = sort_key (\<lambda>i. out_features ! i) [0..<length out_features]"

text \<open>\<open>itertools.groupby(iterable, key)\<close>: maximal runs of consecutive elements with the
  same key, from left to right, each with its key.\<close>

function groupby :: "'a list \<Rightarrow> ('a \<Rightarrow> 'k) \<Rightarrow> ('k \<times> 'a list) list" where
  "groupby [] key = []"
| "groupby (x # xs) key =
     (key x, x # takeWhile (\<lambda>y. key y = key x) xs)
       # groupby (dropWhile (\<lambda>y. key y = key x) xs) key"
  by pat_completeness auto
termination
  by (relation "measure (\<lambda>(xs, key). length xs)")
     (auto simp: length_dropWhile_le less_Suc_eq_le)

text \<open>The list \<open>out_feat_groups\<close> after its \<open>sort\<close>: pairs (out_feature, indices array).
  Python's \<open>list.sort(key=..., reverse=True)\<close> is stable: groups with equal keys keep
  their order, which is what a stable ascending sort on the negated key gives.\<close>

definition out_feat_groups :: "int list \<Rightarrow> (int \<times> nat list) list" where
  "out_feat_groups out_features =
     (let indices = argsort out_features;
          out_features_sorted = map (\<lambda>i. out_features ! i) indices;
          groups = map (\<lambda>(k, g). (k, map (\<lambda>p. indices ! p) g))
                     (groupby [0..<length indices] (\<lambda>i. out_features_sorted ! i))
      in sort_key (\<lambda>x. - (fst x * int (length (snd x)))) groups)"

text \<open>The loop over the groups. \<open>out_group_units\<close> starts as the list of group sizes;
  the model returns its final content, entry by entry: the entry of the current group,
  then the entries of the groups after it, which keep their initial value once the loop
  has left by \<open>break\<close>.\<close>

fun group_loop :: "(rat \<Rightarrow> rat) \<Rightarrow> rat \<Rightarrow> (int \<times> nat list) list \<Rightarrow> int \<Rightarrow> int list" where
  "group_loop rnd units_feat_ratio [] remaining_units = []"
| "group_loop rnd units_feat_ratio [out_feat_group] remaining_units =
     [int (length (snd out_feat_group)) + remaining_units]"
| "group_loop rnd units_feat_ratio (out_feat_group # rest) remaining_units =
     (let n = int (length (snd out_feat_group));
          curr_out_feat_size = fst out_feat_group * n;
          curr_units0 = max (rnd (of_int curr_out_feat_size * units_feat_ratio)) (of_int n);
          curr_units1 = \<lfloor>curr_units0 / of_int n\<rfloor> * n - n;
          curr_units = min curr_units1 remaining_units;
          remaining_units' = remaining_units - curr_units
      in (n + curr_units) #
         (if remaining_units' = 0 then map (\<lambda>g. int (length (snd g))) rest
          else group_loop rnd units_feat_ratio rest remaining_units'))"

text \<open>The final feature division: \<open>divided_in_features\<close> starts as \<open>np.zeros\<close> and is
  written at every index of every group.\<close>

definition final_division :: "nat \<Rightarrow> (int \<times> nat list) list \<Rightarrow> int list \<Rightarrow> int \<Rightarrow> int list" where
  "final_division len groups out_group_units min_unit =
     fold (\<lambda>(out_feat_group, u) divided.
             fold (\<lambda>idx d. d[idx := u div int (length (snd out_feat_group)) * min_unit])
                  (snd out_feat_group) divided)
          (zip groups out_group_units) (replicate len 0)"

text \<open>The content of \<open>out_group_units\<close> when the loop over the groups is left,
  for \<open>units = in_feature // min_unit\<close>.\<close>

definition out_group_units :: "(rat \<Rightarrow> rat) \<Rightarrow> int \<Rightarrow> int list \<Rightarrow> int list" where
  "out_group_units rnd units out_features =
     (let groups = out_feat_groups out_features;
          units_feat_ratio = rnd (of_int units / of_int (sum_list out_features));
          remaining_units = units - sum_list (map (\<lambda>g. int (length (snd g))) groups)
      in group_loop rnd units_feat_ratio groups remaining_units)"

text \<open>The assertion on \<open>in_feature\<close> and the two divisions by zero that Python
  raises (\<open>in_feature % 0\<close> and \<open>float(units) / 0\<close>) are the error branches.\<close>

definition divide_feature :: "(rat \<Rightarrow> rat) \<Rightarrow> int \<Rightarrow> int list \<Rightarrow> int \<Rightarrow> error + int list" where
  "divide_feature rnd in_feature out_features min_unit =
     (if min_unit = 0 then Inl ZeroDivisionError
      else if in_feature mod min_unit \<noteq> 0 then Inl AssertionError
      else if sum_list out_features = 0 then Inl ZeroDivisionError
      else
        let units = in_feature div min_unit
        in Inr (final_division (length out_features) (out_feat_groups out_features)
                  (out_group_units rnd units out_features) min_unit))"

text \<open>One step of the final division, as a function of its own: everything the outer loop
  does for one group and its number of units.\<close>

definition write_group :: "int \<Rightarrow> (int \<times> nat list) \<times> int \<Rightarrow> int list \<Rightarrow> int list" where
  "write_group min_unit = (\<lambda>(out_feat_group, u) divided.
             fold (\<lambda>idx d. d[idx := u div int (length (snd out_feat_group)) * min_unit])
                  (snd out_feat_group) divided)"

text \<open>The inputs the docstring and the assertion admit: a positive granularity that divides
  \<open>in_feature\<close>, and a non-empty list of positive parameter counts.\<close>

definition valid_input :: "int \<Rightarrow> int list \<Rightarrow> int \<Rightarrow> bool" where
  "valid_input in_feature out_features min_unit \<longleftrightarrow>
     0 < min_unit \<and> in_feature mod min_unit = 0 \<and> out_features \<noteq> [] \<and>
     (\<forall>k\<in>set out_features. 0 < k)"



section \<open>Tensors and Python slices\<close>

text \<open>
  Where a claim is about which tensor operation is applied, and not about its floating
  point result, a tensor is the list of its entries in row-major order, over any ordered
  field; the two arguments of an elementwise operation have the same shape at every call
  site of the modelled code.
\<close>

type_synonym 'a tensor = "'a list"

definition tensor_add :: "'a::linordered_field tensor \<Rightarrow> 'a tensor \<Rightarrow> 'a tensor" where
  "tensor_add x y = map2 (\<lambda>a b. a + b) x y"

definition tensor_scale :: "'a::linordered_field tensor \<Rightarrow> 'a \<Rightarrow> 'a tensor" where
  "tensor_scale x c = map (\<lambda>a. a * c) x"

definition tensor_max :: "'a::linordered_field tensor \<Rightarrow> 'a tensor \<Rightarrow> 'a tensor" where
  "tensor_max x y = map2 max x y"

text \<open>\<open>xs[start:stop]\<close> on a Python sequence or along one tensor dimension: a negative
  bound counts from the end, and both bounds are clipped to the length.\<close>

definition py_slice :: "int \<Rightarrow> int \<Rightarrow> 'a list \<Rightarrow> 'a list" where
  "py_slice start stop xs =
     (let n = int (length xs);
          a = (if start < 0 then max 0 (start + n) else min start n);
          b = (if stop < 0 then max 0 (stop + n) else min stop n)
      in take (nat (b - a)) (drop (nat a) xs))"

text \<open>\<open>xs[i]\<close> on a Python list: a negative index counts from the end, and an index out
  of range raises \<open>IndexError\<close>.\<close>

definition py_index :: "'a list \<Rightarrow> int \<Rightarrow> error + 'a" where
  "py_index xs i =
     (let n = int (length xs); j = (if i < 0 then i + n else i)
      in if 0 \<le> j \<and> j < n then Inr (xs ! nat j) else Inl IndexError)"

section \<open>\<open>HyperGen.gather_results\<close>\<close>

text \<open>The attribute \<open>inference_gather\<close> is stored by \<open>__init__\<close> as given, without
  validation; it is the first argument here. An argument that may be \<open>None\<close> is an
  option, and the assertion on \<open>x\<close> is the error branch.\<close>

definition gather_results ::
  "string \<Rightarrow> 'a::linordered_field tensor option \<Rightarrow> 'a tensor option \<Rightarrow> error + 'a tensor" where
  "gather_results inference_gather x y =
     (case x of
        None \<Rightarrow> Inl AssertionError
      | Some xv \<Rightarrow>
          (case y of
             None \<Rightarrow> Inr xv
           | Some yv \<Rightarrow>
               if inference_gather = ''mean'' then Inr (tensor_scale (tensor_add xv yv) (1 / 2))
               else Inr (tensor_max xv yv)))"

section \<open>\<open>HyperPatchInvertedResidual\<close>\<close>

text \<open>Python's \<open>round\<close> with one argument: to the nearest integer, a tie to the even one.\<close>

definition py_round :: "rat \<Rightarrow> int" where
  "py_round x =
     (let f = \<lfloor>x\<rfloor>; d = x - of_int f
      in if d < 1 / 2 then f else if 1 / 2 < d then f + 1 else if even f then f else f + 1)"

text \<open>The attributes that \<open>__init__\<close> computes from its arguments. The normalisation layers
  and the activation carry no information for the claims and are left out; the parameter
  counts are Python and numpy integers, modelled as \<open>int\<close> (no count of parameters of a
  network comes near \<open>2^63\<close>, where \<open>np.prod\<close> would wrap).\<close>

record inverted_residual =
  stride :: int
  padding_mode :: string
  padding :: "int \<times> int"
  in_nc :: int
  out_nc :: int
  kernel_size :: "int \<times> int"
  hidden_dim :: int
  use_res_connect :: bool
  hyper_params :: int
  ranges :: "int list"

text \<open>\<open>_pair(kernel_size)\<close> turns an integer \<open>k\<close> into \<open>(k, k)\<close> and leaves a pair
  as it is; the constructor below takes the pair. \<open>expand_ratio\<close> is an integer or a
  float, a rational number either way, and the product \<open>in_nc * expand_ratio\<close> is taken
  exactly. The assertion on \<open>stride\<close> is the error branch.\<close>

definition HyperPatchInvertedResidual_init ::
  "int \<Rightarrow> int \<Rightarrow> int \<times> int \<Rightarrow> int \<Rightarrow> rat \<Rightarrow> string \<Rightarrow> error + inverted_residual" where
  "HyperPatchInvertedResidual_init in_nc' out_nc' kernel_size' stride' expand_ratio padding_mode' =
     (if stride' \<notin> {1, 2} then Inl AssertionError
      else
        let hidden = py_round (of_int in_nc' * expand_ratio);
            hyper_params0 = 0;
            ranges0 = [0];
            hyper_params1 = hyper_params0 + in_nc' * hidden;
            ranges1 = ranges0 @ [hyper_params1];
            hyper_params2 = hyper_params1 + hidden * fst kernel_size' * snd kernel_size';
            ranges2 = ranges1 @ [hyper_params2];
            hyper_params3 = hyper_params2 + hidden * out_nc';
            ranges3 = ranges2 @ [hyper_params3]
        in Inr \<lparr>stride = stride', padding_mode = padding_mode', padding = (1, 1),
                 in_nc = in_nc', out_nc = out_nc', kernel_size = kernel_size',
                 hidden_dim = hidden,
                 use_res_connect = (stride' = 1 \<and> in_nc' = out_nc'),
                 hyper_params = hyper_params3, ranges = ranges3\<rparr>)"


text \<open>\<open>forward\<close>. The three convolution stages of \<open>conv\<close> with their normalisations are
  floating point computations; \<open>forward\<close> only calls \<open>conv\<close>, which is the parameter
  \<open>conv\<close> of the model.\<close>

definition HyperPatchInvertedResidual_forward ::
  "inverted_residual \<Rightarrow> ('a::linordered_field tensor \<Rightarrow> 'w \<Rightarrow> 'a tensor) \<Rightarrow> 'a tensor \<Rightarrow> 'w \<Rightarrow> 'a tensor" where
  "HyperPatchInvertedResidual_forward m conv x s =
     (if use_res_connect m then tensor_add x (conv x s) else conv x s)"

section \<open>\<open>WeightLayer\<close> and \<open>next_multiply\<close>\<close>


text \<open>\<open>nn.Conv2d(in_channels, out_channels, 1, bias=False, groups=groups)\<close>: the layer is
  its three counts; the library refuses a number of groups that is not positive or does
  not divide both channel counts, and a negative channel count.\<close>

record conv2d =
  in_channels :: int
  out_channels :: int
  groups :: int







section \<open>The coordinate grids of \<open>MultiScaleDecoder\<close>\<close>

text \<open>\<open>torch.linspace(-1, 1, steps)\<close>, with its values as exact rationals, and the grid that
  \<open>cache_image_coordinates(h, w)\<close> builds from two of them: a tensor of shape
  \<open>(1, 2, h, w)\<close>, as nested lists, whose first plane holds the x coordinate of every
  pixel and whose second plane holds the y coordinate.\<close>

definition linspace :: "nat \<Rightarrow> rat list" where
  "linspace steps =
     map (\<lambda>i. if steps = 1 then - 1 else - 1 + 2 * of_nat i / of_nat (steps - 1)) [0..<steps]"

type_synonym grid = "rat list list list list"

definition cache_image_coordinates :: "nat \<Rightarrow> nat \<Rightarrow> grid" where
  "cache_image_coordinates h w =
     (let x = linspace w; y = linspace h
      in [[replicate h x, map (\<lambda>v. replicate w v) y]])"

text \<open>\<open>grid.expand(b, -1, -1, -1)\<close> on a grid whose first dimension is 1.\<close>

definition expand :: "nat \<Rightarrow> grid \<Rightarrow> grid" where
  "expand b g = concat (replicate b g)"

text \<open>
  The state that the coordinate lookup reads: the buffers named \<open>coord{h}_{w}\<close> of the
  module, keyed here by the pair \<open>(h, w)\<close> that the name encodes. The counter \<open>computed\<close>
  is not in the source: it counts how often \<open>get_image_coordinates\<close> has built a grid
  (lines 216 to 218), which is what "recomputation" is about.
\<close>

record coords_state =
  buffers :: "nat \<times> nat \<rightharpoonup> grid"
  computed :: nat

text \<open>The registration at the end of \<open>__init__\<close>: for every resolution of \<open>coords_res\<close>,
  the grid of each of its \<open>levels\<close> halvings. \<open>register_buffer\<close> replaces a buffer of the
  same name.\<close>

definition register_coords :: "nat \<Rightarrow> (nat \<times> nat) list option \<Rightarrow> (nat \<times> nat \<rightharpoonup> grid)" where
  "register_coords levels' coords_res =
     (case coords_res of
        None \<Rightarrow> Map.empty
      | Some rs \<Rightarrow>
          fold (\<lambda>res bufs.
                  fold (\<lambda>level_res bufs'.
                          bufs'(level_res \<mapsto> cache_image_coordinates (fst level_res) (snd level_res)))
                       (map (\<lambda>i. (fst res div 2 ^ i, snd res div 2 ^ i)) [0..<levels'])
                       bufs)
               rs Map.empty)"

text \<open>The inner loop of the registration alone, over the keys of one resolution.\<close>

definition register_level ::
  "(nat \<times> nat \<rightharpoonup> grid) \<Rightarrow> (nat \<times> nat) list \<Rightarrow> (nat \<times> nat \<rightharpoonup> grid)" where
  "register_level bufs keys =
     fold (\<lambda>level_res bufs'.
             bufs'(level_res \<mapsto> cache_image_coordinates (fst level_res) (snd level_res)))
          keys bufs"

definition get_image_coordinates :: "coords_state \<Rightarrow> nat \<Rightarrow> nat \<Rightarrow> nat \<Rightarrow> grid \<times> coords_state" where
  "get_image_coordinates st b h w =
     (case buffers st (h, w) of
        Some g \<Rightarrow> (expand b g, st)
      | None \<Rightarrow>
          (expand b (cache_image_coordinates h w), st\<lparr>computed := computed st + 1\<rparr>))"

text \<open>A sequence of lookups \<open>(b, h, w)\<close>, one after the other, as the levels of one or of
  several forward passes make them.\<close>

fun get_all :: "coords_state \<Rightarrow> (nat \<times> nat \<times> nat) list \<Rightarrow> coords_state" where
  "get_all st [] = st"
| "get_all st ((b, h, w) # calls) = get_all (snd (get_image_coordinates st b h w)) calls"

section \<open>The weight sourcing of \<open>MultiScaleDecoder\<close>\<close>

text \<open>The position that a Python index denotes in a list of the given length.\<close>

definition py_position :: "nat \<Rightarrow> int \<Rightarrow> error + nat" where
  "py_position len i =
     (let n = int len; j = (if i < 0 then i + n else i)
      in if 0 \<le> j \<and> j < n then Inr (nat j) else Inl IndexError)"

text \<open>
  What \<open>__init__\<close> builds for the weight sourcing, from the parameter counts of the level
  blocks (\<open>level_blocks[level].hyper_params\<close>, one per level) and \<open>unify_level\<close>: the list
  \<open>weight_blocks\<close>, each \<open>WeightLayer\<close> given by its \<open>target_params\<close>, and the list
  \<open>_ranges\<close>. With the default \<open>unify_level = None\<close> the comparison
  \<open>level < (unify_level - 1)\<close> raises \<open>TypeError\<close>.
\<close>

record decoder =
  levels :: nat
  unify_level :: int
  level_params :: "int list"
  weight_blocks :: "int list"
  decoder_ranges :: "int list"

definition init_level :: "int \<Rightarrow> int list \<Rightarrow> nat \<Rightarrow> int list \<times> int list \<Rightarrow> int list \<times> int list" where
  "init_level unify_level' params level = (\<lambda>(wblocks, rngs).
     if int level < unify_level' - 1 then (wblocks @ [params ! level], rngs)
     else
       let rngs' = rngs @ [last rngs + params ! level]
       in if int level = int (length params) - 1
          then (wblocks @ [sum_list (py_slice (unify_level' - 1) (int (length params)) params)],
                rngs')
          else (wblocks, rngs'))"

definition MultiScaleDecoder_init :: "int list \<Rightarrow> int option \<Rightarrow> error + decoder" where
  "MultiScaleDecoder_init params unify_level' =
     (case unify_level' of
        None \<Rightarrow>
          if params = [] then
            Inr \<lparr>levels = 0, unify_level = 0, level_params = [], weight_blocks = [],
                 decoder_ranges = [0]\<rparr>
          else Inl TypeError
      | Some ul \<Rightarrow>
          let (wblocks, rngs) = fold (init_level ul params) [0..<length params] ([], [0])
          in Inr \<lparr>levels = length params, unify_level = ul, level_params = params,
                   weight_blocks = wblocks, decoder_ranges = rngs\<rparr>)"

text \<open>
  One pass of \<open>forward\<close>, as far as the weights go. The tensor operations are parameters:
  \<open>gen k s\<close> is the output of \<open>weight_blocks[k]\<close> on the signal \<open>s\<close>, as the list of its
  channels; \<open>blk level p w\<close> is the output of \<open>level_blocks[level]\<close>; \<open>prep level p\<close> is
  the input of the level, made of the feature map of the level, the upsampled output of
  the level before and the coordinates. The local variable \<open>w\<close> is unbound until it is
  assigned. The trace is not in the source: it records each call of a weight block and
  the weights that each level block is given.
\<close>

datatype 'w event = Invoke nat | Apply nat "'w list"

definition forward_level ::
  "decoder \<Rightarrow> (nat \<Rightarrow> 's \<Rightarrow> 'w list) \<Rightarrow> (nat \<Rightarrow> 'p \<Rightarrow> 'w list \<Rightarrow> 'p) \<Rightarrow> (nat \<Rightarrow> 'p option \<Rightarrow> 'p)
     \<Rightarrow> 's \<Rightarrow> nat \<Rightarrow> 'p option \<times> 'w list option \<times> 'w event list
     \<Rightarrow> error + ('p option \<times> 'w list option \<times> 'w event list)" where
  "forward_level d gen blk prep s level = (\<lambda>(p, w, trace).
     case py_position (length (weight_blocks d)) (min (int level) (unify_level d - 1)) of
       Inl e \<Rightarrow> Inl e
     | Inr k \<Rightarrow>
         let p' = prep level p
         in if int level < unify_level d - 1 then
              let w' = gen k s
              in Inr (Some (blk level p' w'), Some w', trace @ [Invoke k, Apply level w'])
            else
              let (w', trace') =
                    (if int level = unify_level d - 1
                     then (Some (gen k s), trace @ [Invoke k]) else (w, trace));
                  i = int level - unify_level d + 1
              in case w' of
                   None \<Rightarrow> Inl UnboundLocalError
                 | Some wv \<Rightarrow>
                     (case py_index (decoder_ranges d) i of
                        Inl e \<Rightarrow> Inl e
                      | Inr lo \<Rightarrow>
                          (case py_index (decoder_ranges d) (i + 1) of
                             Inl e \<Rightarrow> Inl e
                           | Inr hi \<Rightarrow>
                               let ws = py_slice lo hi wv
                               in Inr (Some (blk level p' ws), w', trace' @ [Apply level ws]))))"

fun forward_levels ::
  "decoder \<Rightarrow> (nat \<Rightarrow> 's \<Rightarrow> 'w list) \<Rightarrow> (nat \<Rightarrow> 'p \<Rightarrow> 'w list \<Rightarrow> 'p) \<Rightarrow> (nat \<Rightarrow> 'p option \<Rightarrow> 'p)
     \<Rightarrow> 's \<Rightarrow> nat list \<Rightarrow> 'p option \<times> 'w list option \<times> 'w event list
     \<Rightarrow> error + ('p option \<times> 'w list option \<times> 'w event list)" where
  "forward_levels d gen blk prep s [] st = Inr st"
| "forward_levels d gen blk prep s (level # rest) st =
     (case forward_level d gen blk prep s level st of
        Inl e \<Rightarrow> Inl e
      | Inr st' \<Rightarrow> forward_levels d gen blk prep s rest st')"

definition MultiScaleDecoder_forward ::
  "decoder \<Rightarrow> (nat \<Rightarrow> 's \<Rightarrow> 'w list) \<Rightarrow> (nat \<Rightarrow> 'p \<Rightarrow> 'w list \<Rightarrow> 'p) \<Rightarrow> (nat \<Rightarrow> 'p option \<Rightarrow> 'p)
     \<Rightarrow> 's \<Rightarrow> error + ('p option \<times> 'w event list)" where
  "MultiScaleDecoder_forward d gen blk prep s =
     (case forward_levels d gen blk prep s [0..<levels d] (None, None, []) of
        Inl e \<Rightarrow> Inl e
      | Inr (p, w, trace) \<Rightarrow> Inr (p, trace))"

text \<open>
  What the claim about the weight sourcing says of one pass, written after the claim and
  not after the code, to be compared with \<open>MultiScaleDecoder_forward\<close>: with
  \<open>k = unify_level - 1\<close>, a level below \<open>k\<close> calls its own generator; level \<open>k\<close>
  calls the shared generator \<open>weight_blocks[k]\<close>; level \<open>k\<close> and every level after it
  are given the slice \<open>[_ranges[i], _ranges[i + 1])\<close> of that one output, \<open>i\<close> being
  the level minus \<open>k\<close>.
\<close>

definition claimed_weights :: "decoder \<Rightarrow> (nat \<Rightarrow> 's \<Rightarrow> 'w list) \<Rightarrow> 's \<Rightarrow> nat \<Rightarrow> 'w list" where
  "claimed_weights d gen s level =
     (let k = nat (unify_level d - 1)
      in if level < k then gen level s
         else py_slice (decoder_ranges d ! (level - k)) (decoder_ranges d ! (level - k + 1))
                (gen k s))"

definition claimed_events :: "decoder \<Rightarrow> (nat \<Rightarrow> 's \<Rightarrow> 'w list) \<Rightarrow> 's \<Rightarrow> nat \<Rightarrow> 'w event list" where
  "claimed_events d gen s level =
     (if level \<le> nat (unify_level d - 1) then [Invoke level] else [])
       @ [Apply level (claimed_weights d gen s level)]"

fun claimed_output ::
  "decoder \<Rightarrow> (nat \<Rightarrow> 's \<Rightarrow> 'w list) \<Rightarrow> (nat \<Rightarrow> 'p \<Rightarrow> 'w list \<Rightarrow> 'p) \<Rightarrow> (nat \<Rightarrow> 'p option \<Rightarrow> 'p)
     \<Rightarrow> 's \<Rightarrow> nat \<Rightarrow> 'p option" where
  "claimed_output d gen blk prep s 0 = None"
| "claimed_output d gen blk prep s (Suc level) =
     Some (blk level (prep level (claimed_output d gen blk prep s level))
             (claimed_weights d gen s level))"

text \<open>The value of the local variable \<open>w\<close> of \<open>forward\<close> once the levels below \<open>j\<close> are done.\<close>

definition w_after :: "decoder \<Rightarrow> (nat \<Rightarrow> 's \<Rightarrow> 'w list) \<Rightarrow> 's \<Rightarrow> nat \<Rightarrow> 'w list option" where
  "w_after d gen s j =
     (if j = 0 then None else Some (gen (min (j - 1) (nat (unify_level d - 1))) s))"

section \<open>\<open>HyperPatch.forward\<close>, at the level of tensor shapes\<close>









section \<open>Properties of the budget allocator\<close>

lemma groupby_concat: "concat (map snd (groupby xs key)) = xs"
  by (induction xs key rule: groupby.induct) simp_all

lemma groupby_member:
  "(k, g) \<in> set (groupby xs key) \<Longrightarrow> g \<noteq> [] \<and> (\<forall>x\<in>set g. key x = k) \<and> set g \<subseteq> set xs"
proof (induction xs key rule: groupby.induct)
  case (1 key)
  then show ?case by simp
next
  case (2 x xs key)
  from "2.prems" consider
      (hd) "k = key x" "g = x # takeWhile (\<lambda>y. key y = key x) xs"
    | (tl) "(k, g) \<in> set (groupby (dropWhile (\<lambda>y. key y = key x) xs) key)"
    by auto
  then show ?case
  proof cases
    case hd
    then show ?thesis by (auto dest: set_takeWhileD)
  next
    case tl
    from "2.IH" [OF tl] show ?thesis by (auto dest: set_dropWhileD)
  qed
qed

lemma sorted_dropWhile_neq:
  fixes key :: "'a \<Rightarrow> 'k::linorder"
  assumes "sorted (map key (x # xs))" "y \<in> set (dropWhile (\<lambda>y. key y = key x) xs)"
  shows "key x < key y"
  using assms
proof (induction xs)
  case Nil
  then show ?case by simp
next
  case (Cons a xs)
  show ?case
  proof (cases "key a = key x")
    case True
    with Cons show ?thesis by auto
  next
    case False
    with Cons.prems have "key x < key a" by auto
    moreover from Cons.prems False have "key a \<le> key y" by auto
    ultimately show ?thesis by simp
  qed
qed

lemma sorted_map_dropWhile:
  "sorted (map key xs) \<Longrightarrow> sorted (map key (dropWhile P xs))"
  by (induction xs) auto

lemma groupby_distinct_keys:
  fixes key :: "'a \<Rightarrow> 'k::linorder"
  shows "sorted (map key xs) \<Longrightarrow> distinct (map fst (groupby xs key))"
proof (induction xs key rule: groupby.induct)
  case (1 key)
  then show ?case by simp
next
  case (2 x xs key)
  let ?rest = "dropWhile (\<lambda>y. key y = key x) xs"
  have srt: "sorted (map key ?rest)"
    using "2.prems" by (auto intro: sorted_map_dropWhile)
  have "key x \<notin> fst ` set (groupby ?rest key)"
  proof
    assume "key x \<in> fst ` set (groupby ?rest key)"
    then obtain g where g: "(key x, g) \<in> set (groupby ?rest key)" by force
    from groupby_member [OF g] obtain y where "y \<in> set ?rest" "key y = key x"
      by (cases g) auto
    with sorted_dropWhile_neq [OF "2.prems"] show False by force
  qed
  with "2.IH" [OF srt] show ?case by simp
qed


lemma out_feat_groups_unsorted:
  fixes xs :: "int list"
  defines "indices \<equiv> argsort xs"
  defines "grps \<equiv> map (\<lambda>(k, g). (k, map (\<lambda>p. indices ! p) g))
                     (groupby [0..<length indices] (\<lambda>i. map (\<lambda>i. xs ! i) indices ! i))"
  shows "concat (map snd grps) = indices"
    and "distinct (map fst grps)"
    and "(k, g) \<in> set grps \<Longrightarrow> g \<noteq> [] \<and> (\<forall>i\<in>set g. i < length xs \<and> xs ! i = k)"
proof -
  let ?key = "\<lambda>i. map (\<lambda>i. xs ! i) indices ! i"
  let ?pos = "groupby [0..<length indices] ?key"
  have len: "length indices = length xs" and set_ind: "set indices = {0..<length xs}"
    by (simp_all add: indices_def argsort_def)
  have "map snd grps = map (map (\<lambda>p. indices ! p)) (map snd ?pos)"
    by (simp add: grps_def case_prod_beta)
  then have "concat (map snd grps) = map (\<lambda>p. indices ! p) (concat (map snd ?pos))"
    by (simp add: map_concat)
  then show "concat (map snd grps) = indices"
    by (simp add: groupby_concat map_nth)
  have "map ?key [0..<length indices] = map (\<lambda>i. xs ! i) indices"
    by (rule nth_equalityI) simp_all
  moreover have "sorted (map (\<lambda>i. xs ! i) indices)"
    by (simp add: indices_def argsort_def)
  ultimately have "sorted (map ?key [0..<length indices])" by simp
  from groupby_distinct_keys [OF this]
  have "distinct (map fst ?pos)" .
  moreover have "map fst grps = map fst ?pos"
    by (simp add: grps_def case_prod_beta)
  ultimately show "distinct (map fst grps)" by simp
  assume "(k, g) \<in> set grps"
  then obtain g' where g': "(k, g') \<in> set ?pos" and g: "g = map (\<lambda>p. indices ! p) g'"
    by (auto simp: grps_def)
  from groupby_member [OF g']
  have ne: "g' \<noteq> []" and key: "\<forall>p\<in>set g'. ?key p = k" and sub: "set g' \<subseteq> {0..<length indices}"
    by auto
  show "g \<noteq> [] \<and> (\<forall>i\<in>set g. i < length xs \<and> xs ! i = k)"
  proof (intro conjI ballI)
    show "g \<noteq> []" using ne g by simp
  next
    fix i assume "i \<in> set g"
    then obtain p where p: "p \<in> set g'" "i = indices ! p" using g by auto
    with sub have "p < length indices" by auto
    then have "indices ! p \<in> set indices" by simp
    with set_ind p show "i < length xs" by simp
  next
    fix i assume "i \<in> set g"
    then obtain p where p: "p \<in> set g'" "i = indices ! p" using g by auto
    with sub have "p < length indices" by auto
    with key p show "xs ! i = k" by auto
  qed
qed

lemma mset_concat_cong:
  assumes "mset xss = mset yss"
  shows "mset (concat xss) = mset (concat yss)"
proof -
  have "mset (concat zss) = sum_mset (image_mset mset (mset zss))" for zss :: "'a list list"
    by (induction zss) simp_all
  with assms show ?thesis by simp
qed

lemma mset_map_sort_key: "mset (map h (sort_key f xs)) = mset (map h xs)"
  by (simp only: mset_map mset_sort)

lemma out_feat_groups_perm:
  "mset (concat (map snd (out_feat_groups xs))) = mset [0..<length xs]"
proof -
  let ?indices = "argsort xs"
  let ?groups = "map (\<lambda>(k, g). (k, map (\<lambda>p. ?indices ! p) g))
                     (groupby [0..<length ?indices] (\<lambda>i. map (\<lambda>i. xs ! i) ?indices ! i))"
  have "mset (map snd (out_feat_groups xs)) = mset (map snd ?groups)"
    unfolding out_feat_groups_def Let_def by (rule mset_map_sort_key)
  from mset_concat_cong [OF this]
  have "mset (concat (map snd (out_feat_groups xs))) = mset ?indices"
    using out_feat_groups_unsorted(1) [of xs] by simp
  then show ?thesis by (simp add: argsort_def)
qed

lemma out_feat_groups_distinct: "distinct (map fst (out_feat_groups xs))"
proof -
  let ?indices = "argsort xs"
  let ?groups = "map (\<lambda>(k, g). (k, map (\<lambda>p. ?indices ! p) g))
                     (groupby [0..<length ?indices] (\<lambda>i. map (\<lambda>i. xs ! i) ?indices ! i))"
  have "mset (map fst (out_feat_groups xs)) = mset (map fst ?groups)"
    unfolding out_feat_groups_def Let_def by (rule mset_map_sort_key)
  then have "distinct (map fst (out_feat_groups xs)) = distinct (map fst ?groups)"
    by (rule mset_eq_imp_distinct_iff)
  with out_feat_groups_unsorted(2) [of xs] show ?thesis by simp
qed

lemma out_feat_groups_member:
  assumes "(k, g) \<in> set (out_feat_groups xs)"
  shows "g \<noteq> [] \<and> (\<forall>i\<in>set g. i < length xs \<and> xs ! i = k)"
proof -
  from assms have "(k, g) \<in> set (map (\<lambda>(k, g). (k, map (\<lambda>p. argsort xs ! p) g))
                     (groupby [0..<length (argsort xs)] (\<lambda>i. map (\<lambda>i. xs ! i) (argsort xs) ! i)))"
    unfolding out_feat_groups_def Let_def by simp
  from out_feat_groups_unsorted(3) [OF this] show ?thesis .
qed


lemma group_loop_length: "length (group_loop rnd r gs rem) = length gs"
  by (induction rnd r gs rem rule: group_loop.induct) (simp_all add: Let_def)


lemma fold_update_length: "length (fold (\<lambda>idx d. d[idx := v]) idxs d) = length d"
  by (induction idxs arbitrary: d) simp_all

lemma fold_update_nth:
  "j < length d \<Longrightarrow>
   fold (\<lambda>idx d. d[idx := v]) idxs d ! j = (if j \<in> set idxs then v else d ! j)"
proof (induction idxs arbitrary: d)
  case Nil
  then show ?case by simp
next
  case (Cons i idxs)
  then show ?case by (cases "i = j") simp_all
qed

lemma fold_write_group_length: "length (fold (write_group mu) ps d) = length d"
  by (induction ps arbitrary: d) (simp_all add: write_group_def case_prod_beta fold_update_length)

lemma fold_write_group_nth:
  assumes "j < length d"
    and "\<forall>(g, u)\<in>set ps. j \<in> set (snd g) \<longrightarrow> u div int (length (snd g)) * mu = v"
    and "d ! j = v \<or> (\<exists>(g, u)\<in>set ps. j \<in> set (snd g))"
  shows "fold (write_group mu) ps d ! j = v"
  using assms
proof (induction ps arbitrary: d)
  case Nil
  then show ?case by simp
next
  case (Cons p ps)
  obtain g u where p: "p = (g, u)" by (cases p)
  let ?d = "write_group mu p d"
  have len: "j < length ?d"
    using Cons.prems(1) by (simp add: p write_group_def fold_update_length)
  have nth: "?d ! j = (if j \<in> set (snd g) then u div int (length (snd g)) * mu else d ! j)"
    using Cons.prems(1) by (simp add: p write_group_def fold_update_nth)
  have "?d ! j = v \<or> (\<exists>(g, u)\<in>set ps. j \<in> set (snd g))"
    using Cons.prems(2,3) nth by (auto simp: p)
  with Cons.IH [OF len] Cons.prems(2) show ?case by simp
qed

lemma final_division_length:
  "length (final_division len grps units mu) = len"
proof -
  have "final_division len grps units mu = fold (write_group mu) (zip grps units) (replicate len 0)"
    by (simp add: final_division_def write_group_def)
  then show ?thesis by (simp add: fold_write_group_length)
qed

lemma final_division_nth:
  assumes "distinct (map fst grps)" "length units = length grps"
    and "(k, g) \<in> set grps" "j \<in> set g" "j < len"
    and "\<And>k' g'. (k', g') \<in> set grps \<Longrightarrow> j \<in> set g' \<Longrightarrow> k' = k"
    and "((k, g), u) \<in> set (zip grps units)"
  shows "final_division len grps units mu ! j = u div int (length g) * mu"
proof -
  have fd: "final_division len grps units mu = fold (write_group mu) (zip grps units) (replicate len 0)"
    by (simp add: final_division_def write_group_def)
  have dz: "distinct (map fst (zip grps units))"
    using assms(1,2) by (simp add: distinct_map)
  have "\<forall>(g', u')\<in>set (zip grps units). j \<in> set (snd g') \<longrightarrow>
          u' div int (length (snd g')) * mu = u div int (length g) * mu"
  proof (clarify)
    fix k' g' u' assume in_zip: "((k', g'), u') \<in> set (zip grps units)" and j: "j \<in> set (snd (k', g'))"
    from in_zip have mem: "(k', g') \<in> set grps" by (rule set_zip_leftD)
    with j assms(6) have "k' = k" by simp
    with mem assms(1,3) have "g' = g" by (auto dest: eq_key_imp_eq_value)
    with \<open>k' = k\<close> in_zip assms(7) dz have "u' = u" by (auto dest: eq_key_imp_eq_value)
    with \<open>g' = g\<close> show "u' div int (length (snd (k', g'))) * mu = u div int (length g) * mu" by simp
  qed
  moreover have "\<exists>(g', u')\<in>set (zip grps units). j \<in> set (snd g')"
    using assms(4,7) by force
  ultimately show ?thesis
    unfolding fd using assms(5) by (intro fold_write_group_nth) simp_all
qed

lemma out_group_units_length:
  "length (out_group_units rnd units xs) = length (out_feat_groups xs)"
  by (simp add: out_group_units_def Let_def group_loop_length)


lemma index_group:
  assumes "j < length xs"
  shows "\<exists>g. (xs ! j, g) \<in> set (out_feat_groups xs) \<and> j \<in> set g"
proof -
  from assms have "j \<in># mset [0..<length xs]" by simp
  then have "j \<in># mset (concat (map snd (out_feat_groups xs)))"
    by (simp only: out_feat_groups_perm)
  then obtain k g where kg: "(k, g) \<in> set (out_feat_groups xs)" "j \<in> set g" by auto
  with out_feat_groups_member [OF kg(1)] have "xs ! j = k" by simp
  with kg show ?thesis by auto
qed

lemma final_division_group:
  assumes "((k, g), u) \<in> set (zip (out_feat_groups xs) (out_group_units rnd units xs))"
    and "j \<in> set g"
  shows "final_division (length xs) (out_feat_groups xs) (out_group_units rnd units xs) mu ! j
           = u div int (length g) * mu"
proof -
  from assms(1) have mem: "(k, g) \<in> set (out_feat_groups xs)" by (rule set_zip_leftD)
  from out_feat_groups_member [OF mem] assms(2) have j: "j < length xs" "xs ! j = k" by auto
  have uniq: "k' = k" if "(k', g') \<in> set (out_feat_groups xs)" "j \<in> set g'" for k' g'
    using out_feat_groups_member [OF that(1)] that(2) j by auto
  show ?thesis
    by (rule final_division_nth [OF out_feat_groups_distinct out_group_units_length mem assms(2) j(1) uniq assms(1)])
qed

lemma divide_feature_nth:
  assumes "j < length xs"
  shows "\<exists>g u. ((xs ! j, g), u) \<in> set (zip (out_feat_groups xs) (out_group_units rnd units xs))
           \<and> j \<in> set g
           \<and> final_division (length xs) (out_feat_groups xs) (out_group_units rnd units xs) mu ! j
               = u div int (length g) * mu"
proof -
  from index_group [OF assms] obtain g where g: "(xs ! j, g) \<in> set (out_feat_groups xs)" "j \<in> set g"
    by auto
  from g(1) out_group_units_length [of rnd units xs]
  obtain u where u: "((xs ! j, g), u) \<in> set (zip (out_feat_groups xs) (out_group_units rnd units xs))"
    by (metis in_set_impl_in_set_zip1)
  from final_division_group [OF u g(2)] u g(2) show ?thesis by auto
qed

lemma zip_key_unique:
  assumes "((k, g), u) \<in> set (zip (out_feat_groups xs) (out_group_units rnd units xs))"
    and "((k, g'), u') \<in> set (zip (out_feat_groups xs) (out_group_units rnd units xs))"
  shows "g' = g \<and> u' = u"
proof -
  from assms have "(k, g) \<in> set (out_feat_groups xs)" "(k, g') \<in> set (out_feat_groups xs)"
    by (auto dest: set_zip_leftD)
  with out_feat_groups_distinct [of xs] have gg: "g' = g" by (auto dest: eq_key_imp_eq_value)
  have "distinct (map fst (out_feat_groups xs))" by (rule out_feat_groups_distinct)
  then have "distinct (out_feat_groups xs)" by (simp add: distinct_map)
  then have "distinct (map fst (zip (out_feat_groups xs) (out_group_units rnd units xs)))"
    by (simp add: out_group_units_length)
  with assms gg have "u' = u" by (auto dest: eq_key_imp_eq_value)
  with gg show ?thesis by simp
qed



lemma valid_input_sum_pos: "valid_input in_feature xs mu \<Longrightarrow> 0 < sum_list xs"
proof -
  assume v: "valid_input in_feature xs mu"
  then obtain x xs' where xs: "xs = x # xs'" by (cases xs) (auto simp: valid_input_def)
  from v have "0 < x" "\<forall>k\<in>set xs'. 0 \<le> k" by (auto simp: valid_input_def xs intro: less_imp_le)
  then have "0 < x" "0 \<le> sum_list xs'" by (auto intro: sum_list_nonneg)
  then show ?thesis by (simp add: xs)
qed

lemma divide_feature_valid:
  assumes "valid_input in_feature xs mu"
  shows "divide_feature rnd in_feature xs mu
           = Inr (final_division (length xs) (out_feat_groups xs)
                    (out_group_units rnd (in_feature div mu) xs) mu)"
  using assms valid_input_sum_pos [OF assms]
  by (simp add: divide_feature_def valid_input_def)


subsection \<open>The units of the groups when no group runs out of units\<close>













section \<open>Slices of a weight vector\<close>




section \<open>Properties of the weight generator\<close>




section \<open>Properties of the coordinate lookup\<close>

lemma get_image_coordinates_buffers:
  "buffers (snd (get_image_coordinates st b h w)) = buffers st"
  by (simp add: get_image_coordinates_def split: option.splits)

lemma get_image_coordinates_computed:
  "computed (snd (get_image_coordinates st b h w))
     = computed st + (if buffers st (h, w) = None then 1 else 0)"
  by (simp add: get_image_coordinates_def split: option.splits)

lemma get_all_buffers: "buffers (get_all st calls) = buffers st"
  by (induction st calls rule: get_all.induct) (simp_all add: get_image_coordinates_buffers)

lemma get_all_computed:
  "computed (get_all st calls)
     = computed st + length (filter (\<lambda>(b, h, w). buffers st (h, w) = None) calls)"
proof (induction st calls rule: get_all.induct)
  case (1 st)
  then show ?case by simp
next
  case (2 st b h w calls)
  then show ?case
    by (simp add: get_image_coordinates_buffers get_image_coordinates_computed)
qed

lemma register_level_lookup:
  "register_level bufs keys k =
     (if k \<in> set keys then Some (cache_image_coordinates (fst k) (snd k)) else bufs k)"
  unfolding register_level_def
  by (induction keys arbitrary: bufs) auto

lemma register_res_lookup:
  fixes keys_of :: "nat \<times> nat \<Rightarrow> (nat \<times> nat) list"
  shows "fold (\<lambda>res bufs. register_level bufs (keys_of res)) rs bufs k =
     (if \<exists>res\<in>set rs. k \<in> set (keys_of res)
      then Some (cache_image_coordinates (fst k) (snd k)) else bufs k)"
  by (induction rs arbitrary: bufs) (auto simp: register_level_lookup)

lemma register_coords_lookup:
  "register_coords n (Some rs) k =
     (if \<exists>res\<in>set rs. \<exists>i<n. k = (fst res div 2 ^ i, snd res div 2 ^ i)
      then Some (cache_image_coordinates (fst k) (snd k)) else None)"
proof -
  let ?keys = "\<lambda>res. map (\<lambda>i. (fst res div 2 ^ i, snd res div 2 ^ i)) [0..<n]"
  have "register_coords n (Some rs) = fold (\<lambda>res bufs. register_level bufs (?keys res)) rs Map.empty"
    by (simp add: register_coords_def register_level_def)
  then have "register_coords n (Some rs) k =
     (if \<exists>res\<in>set rs. k \<in> set (?keys res)
      then Some (cache_image_coordinates (fst k) (snd k)) else None)"
    by (simp only: register_res_lookup) 
  moreover have "k \<in> set (?keys res) \<longleftrightarrow> (\<exists>i<n. k = (fst res div 2 ^ i, snd res div 2 ^ i))"
    for res by (simp add: image_iff Bex_def) 
  then have "(\<exists>res\<in>set rs. k \<in> set (?keys res))
       \<longleftrightarrow> (\<exists>res\<in>set rs. \<exists>i<n. k = (fst res div 2 ^ i, snd res div 2 ^ i))"
    by simp
  ultimately show ?thesis by simp
qed

section \<open>Properties of the weight sourcing\<close>

lemma py_slice_drop:
  assumes "k \<le> length xs"
  shows "py_slice (int k) (int (length xs)) xs = drop k xs"
  using assms by (simp add: py_slice_def Let_def min_def)

lemma sum_take_Suc:
  fixes xs :: "int list"
  assumes "i < length xs"
  shows "sum_list (take (Suc i) xs) = sum_list (take i xs) + xs ! i"
  using assms by (simp add: take_Suc_conv_app_nth)

lemma init_fold:
  fixes params :: "int list" and k :: nat
  assumes k: "k < length params" and j: "j \<le> length params"
  shows "fold (init_level (int k + 1) params) [0..<j] ([], [0]) =
           (take (min j k) params @ (if j = length params then [sum_list (drop k params)] else []),
            map (\<lambda>i. sum_list (take i (drop k params))) [0..<Suc (j - k)])"
  using j
proof (induction j)
  case 0
  from k have "params \<noteq> []" by auto
  then show ?case by simp
next
  case (Suc j)
  let ?f = "\<lambda>i. sum_list (take i (drop k params))"
  from Suc.prems have jl: "j < length params" by simp
  with Suc.IH have IH: "fold (init_level (int k + 1) params) [0..<j] ([], [0]) =
           (take (min j k) params, map ?f [0..<Suc (j - k)])" by simp
  have step: "fold (init_level (int k + 1) params) [0..<Suc j] ([], [0]) =
      init_level (int k + 1) params j (take (min j k) params, map ?f [0..<Suc (j - k)])"
    by (simp add: IH)
  show ?case
  proof (cases "j < k")
    case True
    then have e: "Suc j - k = 0" "j - k = 0" "min j k = j" "min (Suc j) k = Suc j"
      "Suc j \<noteq> length params" using k by simp_all
    have "init_level (int k + 1) params j (take j params, map ?f [0..<Suc 0]) =
            (take (Suc j) params, map ?f [0..<Suc 0])"
      using True jl by (simp add: init_level_def take_Suc_conv_app_nth)
    then show ?thesis unfolding step e by (simp add: e)
  next
    case False
    then have kj: "k \<le> j" by simp
    then have m: "min j k = k" "min (Suc j) k = k" and sk: "Suc j - k = Suc (j - k)" by simp_all
    have i: "j - k < length (drop k params)" using jl kj by simp
    have nth: "drop k params ! (j - k) = params ! j" using jl kj by simp
    have last: "last (map ?f [0..<Suc (j - k)]) = ?f (j - k)" by simp
    have rng: "map ?f [0..<Suc (j - k)] @ [?f (j - k) + params ! j] = map ?f [0..<Suc (Suc (j - k))]"
      using sum_take_Suc [OF i] by (simp add: nth)
    have sl: "py_slice (int k + 1 - 1) (int (length params)) params = drop k params"
      using py_slice_drop [of k params] k by simp
    have lvl: "(int j = int (length params) - 1) = (Suc j = length params)" by auto
    have nlt: "\<not> int j < int k + 1 - 1" using kj by simp
    have "init_level (int k + 1) params j (take k params, map ?f [0..<Suc (j - k)]) =
            (take k params @ (if Suc j = length params then [sum_list (drop k params)] else []),
             map ?f [0..<Suc (Suc (j - k))])"
      unfolding init_level_def case_prod_conv Let_def last rng sl lvl if_not_P [OF nlt]
      by simp
    then show ?thesis unfolding step m sk by simp
  qed
qed

lemma decoder_init_shape:
  assumes "MultiScaleDecoder_init params (Some ul) = Inr d" "1 \<le> ul" "ul \<le> int (length params)"
  shows "levels d = length params" "unify_level d = ul"
    and "weight_blocks d = take (nat (ul - 1)) params @ [sum_list (drop (nat (ul - 1)) params)]"
    and "decoder_ranges d = map (\<lambda>i. sum_list (take i (drop (nat (ul - 1)) params)))
                             [0..<Suc (length params - nat (ul - 1))]"
proof -
  let ?k = "nat (ul - 1)"
  have ul: "ul = int ?k + 1" and k: "?k < length params" using assms(2,3) by simp_all
  have f: "fold (init_level ul params) [0..<length params] ([], [0]) =
     (take ?k params @ [sum_list (drop ?k params)],
      map (\<lambda>i. sum_list (take i (drop ?k params))) [0..<Suc (length params - ?k)])"
    using init_fold [OF k order_refl] k ul by simp
  from assms(1) show "levels d = length params" "unify_level d = ul"
    and "weight_blocks d = take ?k params @ [sum_list (drop ?k params)]"
    and "decoder_ranges d = map (\<lambda>i. sum_list (take i (drop ?k params)))
                             [0..<Suc (length params - ?k)]"
    by (auto simp: MultiScaleDecoder_init_def f)
qed

lemma forward_levels_append:
  "forward_levels d gen blk prep s (xs @ ys) st =
     (case forward_levels d gen blk prep s xs st of
        Inl e \<Rightarrow> Inl e
      | Inr st' \<Rightarrow> forward_levels d gen blk prep s ys st')"
  by (induction xs arbitrary: st) (simp_all split: sum.splits)

lemma py_position_inside: "i < n \<Longrightarrow> py_position n (int i) = Inr i"
  by (simp add: py_position_def Let_def)

lemma py_index_inside: "i < length xs \<Longrightarrow> py_index xs (int i) = Inr (xs ! i)"
  by (simp add: py_index_def Let_def)

lemma forward_level_step:
  fixes d :: decoder
  assumes ul: "unify_level d = int k + 1"
    and wb: "length (weight_blocks d) = Suc k"
    and rg: "length (decoder_ranges d) = Suc (levels d - k)"
    and k: "k < levels d" and j: "j < levels d"
  shows "forward_level d gen blk prep s j
           (claimed_output d gen blk prep s j, w_after d gen s j, tr)
         = Inr (claimed_output d gen blk prep s (Suc j), w_after d gen s (Suc j),
                tr @ claimed_events d gen s j)"
proof -
  have kk: "nat (unify_level d - 1) = k" by (simp add: ul)
  have pos: "py_position (length (weight_blocks d)) (min (int j) (unify_level d - 1)) = Inr (min j k)"
  proof -
    have "min (int j) (unify_level d - 1) = int (min j k)" by (simp add: ul)
    moreover have "min j k < length (weight_blocks d)" by (simp add: wb)
    ultimately show ?thesis by (simp only: py_position_inside)
  qed
  show ?thesis
  proof (cases "j < k")
    case True
    then have m: "min j k = j" and lt: "int j < unify_level d - 1" by (simp_all add: ul)
    have cw: "claimed_weights d gen s j = gen j s"
      using True by (simp add: claimed_weights_def kk)
    have ce: "claimed_events d gen s j = [Invoke j, Apply j (gen j s)]"
      using True by (simp add: claimed_events_def kk cw)
    have wa: "w_after d gen s (Suc j) = Some (gen j s)"
      using True by (simp add: w_after_def kk)
    show ?thesis
      unfolding forward_level_def case_prod_conv pos m
      using lt by (simp add: Let_def cw ce wa)
  next
    case False
    then have kj: "k \<le> j" and nlt: "\<not> int j < unify_level d - 1" by (simp_all add: ul)
    have mk: "min j k = k" using kj by simp
    have i: "int j - unify_level d + 1 = int (j - k)" using kj by (simp add: ul)
    have i1: "int (j - k) + 1 = int (j - k + 1)" by simp
    have lo: "py_index (decoder_ranges d) (int (j - k)) = Inr (decoder_ranges d ! (j - k))"
      using j kj by (intro py_index_inside) (simp add: rg)
    have hi: "py_index (decoder_ranges d) (int (j - k + 1)) = Inr (decoder_ranges d ! (j - k + 1))"
      using j kj by (intro py_index_inside) (simp add: rg)
    have cw: "claimed_weights d gen s j =
        py_slice (decoder_ranges d ! (j - k)) (decoder_ranges d ! (j - k + 1)) (gen k s)"
      using False by (simp add: claimed_weights_def kk)
    have wa: "w_after d gen s (Suc j) = Some (gen k s)"
      using kj by (simp add: w_after_def kk min_def)
    show ?thesis
    proof (cases "j = k")
      case True
      have ce: "claimed_events d gen s j = [Invoke k, Apply j (claimed_weights d gen s j)]"
        using True by (simp add: claimed_events_def kk)
      have eq: "int j = unify_level d - 1" using True by (simp add: ul)
      have lo0: "py_index (decoder_ranges d) 0 = Inr (decoder_ranges d ! 0)"
        using lo True by simp
      have hi1: "py_index (decoder_ranges d) 1 = Inr (decoder_ranges d ! Suc 0)"
        using hi True by simp
      have cw0: "claimed_weights d gen s j =
          py_slice (decoder_ranges d ! 0) (decoder_ranges d ! Suc 0) (gen k s)"
        using cw True by simp
      show ?thesis
        unfolding forward_level_def case_prod_conv pos mk
        using nlt eq by (simp add: Let_def lo0 hi1 ce wa flip: cw0)
    next
      case False
      with kj have gt: "k < j" by simp
      have ce: "claimed_events d gen s j = [Apply j (claimed_weights d gen s j)]"
        using gt by (simp add: claimed_events_def kk)
      have ne: "int j \<noteq> unify_level d - 1" using gt by (simp add: ul)
      have "min (j - 1) k = k" using gt by simp
      then have wj: "w_after d gen s j = Some (gen k s)"
        using gt by (simp only: w_after_def kk) simp
      have hi2: "py_index (decoder_ranges d) (1 + int (j - k)) = Inr (decoder_ranges d ! Suc (j - k))"
        using hi by (simp add: add.commute)
      have hi3: "py_index (decoder_ranges d) (int (j - k) + 1) = Inr (decoder_ranges d ! Suc (j - k))"
        using hi2 by (simp only: add.commute [of "int (j - k)" 1])
      have cw2: "claimed_weights d gen s j =
          py_slice (decoder_ranges d ! (j - k)) (decoder_ranges d ! Suc (j - k)) (gen k s)"
        using cw by simp
      show ?thesis
        unfolding forward_level_def case_prod_conv pos mk
        using nlt ne by (simp add: Let_def i lo hi2 hi3 ce wa wj flip: cw2)
    qed
  qed
qed

lemma forward_levels_prefix:
  fixes d :: decoder
  assumes ul: "unify_level d = int k + 1"
    and wb: "length (weight_blocks d) = Suc k"
    and rg: "length (decoder_ranges d) = Suc (levels d - k)"
    and k: "k < levels d" and j: "j \<le> levels d"
  shows "forward_levels d gen blk prep s [0..<j] (None, None, [])
         = Inr (claimed_output d gen blk prep s j, w_after d gen s j,
                concat (map (claimed_events d gen s) [0..<j]))"
  using j
proof (induction j)
  case 0
  show ?case by (simp add: w_after_def)
next
  case (Suc j)
  then have jl: "j < levels d" and IH: "forward_levels d gen blk prep s [0..<j] (None, None, [])
         = Inr (claimed_output d gen blk prep s j, w_after d gen s j,
                concat (map (claimed_events d gen s) [0..<j]))" by simp_all
  have "forward_levels d gen blk prep s [0..<Suc j] (None, None, []) =
          forward_levels d gen blk prep s [j]
            (claimed_output d gen blk prep s j, w_after d gen s j,
                concat (map (claimed_events d gen s) [0..<j]))"
    by (simp add: forward_levels_append IH)
  also have "\<dots> = Inr (claimed_output d gen blk prep s (Suc j), w_after d gen s (Suc j),
                concat (map (claimed_events d gen s) [0..<j]) @ claimed_events d gen s j)"
    by (simp add: forward_level_step [OF ul wb rg k jl] del: claimed_output.simps)
  finally show ?case by simp
qed

lemma count_one:
  "sum_list (map (\<lambda>j. if j = k then 1 else 0) [0..<n]) = (if k < n then 1 else (0::nat))"
  by (induction n) auto

lemma invoke_count:
  "length (filter (\<lambda>e. e = Invoke k) (concat (map (claimed_events d gen s) [0..<n])))
     = (if k < n \<and> k \<le> nat (unify_level d - 1) then 1 else 0)"
proof -
  have one: "length (filter (\<lambda>e. e = Invoke k) (claimed_events d gen s j))
          = (if j = k \<and> k \<le> nat (unify_level d - 1) then 1 else 0)" for j
    by (auto simp: claimed_events_def)
  have "length (filter (\<lambda>e. e = Invoke k) (concat (map (claimed_events d gen s) xs)))
          = sum_list (map (\<lambda>j. if j = k \<and> k \<le> nat (unify_level d - 1) then 1 else 0) xs)" for xs
    by (induction xs) (simp_all add: one)
  then show ?thesis
    using count_one [of k n] by (cases "k \<le> nat (unify_level d - 1)") simp_all
qed

section \<open>Properties of the shapes in \<open>HyperPatch.forward\<close>\<close>







section \<open>Claims about the budget allocator\<close>




text \<open>
  Claim C8: for every valid input, and whatever the float rounding does, any two consumers
  with equal parameter counts receive equal entries of the returned array.
\<close>

theorem divide_feature_equal_params:
  assumes "valid_input in_feature out_features min_unit"
  shows "\<exists>alloc. divide_feature rnd in_feature out_features min_unit = Inr alloc
           \<and> length alloc = length out_features
           \<and> (\<forall>a<length out_features. \<forall>b<length out_features.
                 out_features ! a = out_features ! b \<longrightarrow> alloc ! a = alloc ! b)"
proof -
  let ?units = "in_feature div min_unit"
  let ?G = "out_feat_groups out_features" and ?U = "out_group_units rnd ?units out_features"
  let ?alloc = "final_division (length out_features) ?G ?U min_unit"
  have "?alloc ! a = ?alloc ! b"
    if a: "a < length out_features" and b: "b < length out_features"
      and ab: "out_features ! a = out_features ! b" for a b
  proof -
    from divide_feature_nth [OF a, of rnd ?units min_unit]
    obtain g u where ga: "((out_features ! a, g), u) \<in> set (zip ?G ?U)"
      "?alloc ! a = u div int (length g) * min_unit" by auto
    from divide_feature_nth [OF b, of rnd ?units min_unit]
    obtain g' u' where gb: "((out_features ! b, g'), u') \<in> set (zip ?G ?U)"
      "?alloc ! b = u' div int (length g') * min_unit" by auto
    from zip_key_unique [OF ga(1) gb(1) [folded ab]] ga(2) gb(2) show ?thesis by simp
  qed
  then show ?thesis
    unfolding divide_feature_valid [OF assms]
    using final_division_length [of "length out_features" ?G ?U min_unit] by blast
qed

theorem divide_feature_equal_params_witness:
  "valid_input 64 [10, 10, 20] 8 \<and>
   (\<exists>alloc. divide_feature id 64 [10, 10, 20] 8 = Inr alloc \<and> length alloc = 3
      \<and> alloc ! 0 = alloc ! 1)"
proof -
  have v: "valid_input 64 [10, 10, 20] 8" by (simp add: valid_input_def)
  from divide_feature_equal_params [OF v, of id] v show ?thesis by auto
qed




section \<open>Claims about the result gathering and the inverted residual block\<close>

text \<open>
  Claim C10: for result tensors \<open>x\<close> (not \<open>None\<close>) and \<open>y\<close>, \<open>gather_results\<close> returns
  \<open>x\<close> when \<open>y\<close> is \<open>None\<close>, the elementwise mean \<open>(x + y) * 0.5\<close> when
  \<open>inference_gather\<close> is \<open>'mean'\<close>, and the elementwise maximum for every other value
  of \<open>inference_gather\<close>, an invalid name included: no error is raised for it.
\<close>

theorem gather_results_cases:
  "gather_results g (Some x) None = Inr x
   \<and> gather_results ''mean'' (Some x) (Some y) = Inr (map2 (\<lambda>a b. (a + b) * (1 / 2)) x y)
   \<and> (g \<noteq> ''mean'' \<longrightarrow> gather_results g (Some x) (Some y) = Inr (map2 max x y))"
  by (simp add: gather_results_def tensor_scale_def tensor_add_def tensor_max_def
      map_zip_map case_prod_beta)

theorem gather_results_cases_witness:
  "''median'' \<noteq> ''mean''
   \<and> gather_results ''median'' (Some [1, 5 :: rat]) (Some [3, 2]) = Inr [3, 5]
   \<and> gather_results ''mean'' (Some [1, 5 :: rat]) (Some [3, 2]) = Inr [2, 7 / 2]
   \<and> gather_results ''median'' (Some [1, 5 :: rat]) None = Inr [1, 5]"
  using gather_results_cases [of "''median''" "[1, 5 :: rat]" "[3, 2]"] by simp

text \<open>
  Claim C5: for every input tensor \<open>x\<close> and weight tensor \<open>s\<close>, the \<open>forward\<close> of a
  constructed block returns \<open>x + conv(x, s)\<close> if \<open>stride == 1\<close> and
  \<open>in_nc == out_nc\<close>, and \<open>conv(x, s)\<close> unchanged otherwise.
\<close>

theorem forward_residual_gating:
  assumes "HyperPatchInvertedResidual_init i out ks st er pm = Inr m"
  shows "HyperPatchInvertedResidual_forward m conv x s =
           (if st = 1 \<and> i = out then map2 (\<lambda>a b. a + b) x (conv x s) else conv x s)"
  using assms
  by (auto simp: HyperPatchInvertedResidual_init_def HyperPatchInvertedResidual_forward_def
      tensor_add_def Let_def split: if_splits)

theorem forward_residual_gating_witness:
  "(\<exists>m. HyperPatchInvertedResidual_init 2 2 (3, 3) 1 1 ''reflect'' = Inr m
       \<and> HyperPatchInvertedResidual_forward m (\<lambda>x s. map (\<lambda>a. a * s) x) [1, 2 :: rat] 3 = [4, 8])
   \<and> (\<exists>m. HyperPatchInvertedResidual_init 2 4 (3, 3) 1 1 ''reflect'' = Inr m
       \<and> HyperPatchInvertedResidual_forward m (\<lambda>x s. map (\<lambda>a. a * s) x) [1, 2 :: rat] 3 = [3, 6])
   \<and> (\<exists>m. HyperPatchInvertedResidual_init 2 2 (3, 3) 2 1 ''reflect'' = Inr m
       \<and> HyperPatchInvertedResidual_forward m (\<lambda>x s. map (\<lambda>a. a * s) x) [1, 2 :: rat] 3 = [3, 6])"
proof (intro conjI)
  obtain m where m: "HyperPatchInvertedResidual_init 2 2 (3, 3) 1 1 ''reflect'' = Inr m"
    by (simp add: HyperPatchInvertedResidual_init_def Let_def)
  from forward_residual_gating [OF m, of "\<lambda>x s. map (\<lambda>a. a * s) x" "[1, 2 :: rat]" 3] m
  show "\<exists>m. HyperPatchInvertedResidual_init 2 2 (3, 3) 1 1 ''reflect'' = Inr m
       \<and> HyperPatchInvertedResidual_forward m (\<lambda>x s. map (\<lambda>a. a * s) x) [1, 2 :: rat] 3 = [4, 8]"
    by simp
next
  obtain m where m: "HyperPatchInvertedResidual_init 2 4 (3, 3) 1 1 ''reflect'' = Inr m"
    by (simp add: HyperPatchInvertedResidual_init_def Let_def)
  from forward_residual_gating [OF m, of "\<lambda>x s. map (\<lambda>a. a * s) x" "[1, 2 :: rat]" 3] m
  show "\<exists>m. HyperPatchInvertedResidual_init 2 4 (3, 3) 1 1 ''reflect'' = Inr m
       \<and> HyperPatchInvertedResidual_forward m (\<lambda>x s. map (\<lambda>a. a * s) x) [1, 2 :: rat] 3 = [3, 6]"
    by simp
next
  obtain m where m: "HyperPatchInvertedResidual_init 2 2 (3, 3) 2 1 ''reflect'' = Inr m"
    by (simp add: HyperPatchInvertedResidual_init_def Let_def)
  from forward_residual_gating [OF m, of "\<lambda>x s. map (\<lambda>a. a * s) x" "[1, 2 :: rat]" 3] m
  show "\<exists>m. HyperPatchInvertedResidual_init 2 2 (3, 3) 2 1 ''reflect'' = Inr m
       \<and> HyperPatchInvertedResidual_forward m (\<lambda>x s. map (\<lambda>a. a * s) x) [1, 2 :: rat] 3 = [3, 6]"
    by simp
qed



section \<open>Claims about the weight generator\<close>



section \<open>Claims about the decoder\<close>

text \<open>
  Claim C3, as stated: the first call of \<open>get_image_coordinates\<close> for a key \<open>(h, w)\<close>
  stores the grid, and later calls return the stored grid without recomputation. The
  lookup stores nothing: in a decoder built without \<open>coords_res\<close>, the key \<open>(4, 4)\<close> is
  still absent after the first call for it, and two calls for it build the grid twice.
\<close>

theorem coordinate_cache_store_counterexample:
  "buffers (snd (get_image_coordinates \<lparr>buffers = register_coords 3 None, computed = 0\<rparr> 1 4 4)) (4, 4)
     = None
   \<and> computed (get_all \<lparr>buffers = register_coords 3 None, computed = 0\<rparr> [(1, 4, 4), (1, 4, 4)]) = 2"
  by (simp add: get_image_coordinates_def register_coords_def)

text \<open>
  Claim C3, amended: \<open>get_image_coordinates\<close> never changes the stored grids, so none is
  added and none is evicted, whatever the sequence of calls. A call for a key whose grid
  is stored returns the stored grid, expanded to the batch size, and builds nothing; a
  call for a key whose grid is not stored builds the grid, returns it expanded to the
  batch size, and stores nothing, so that every call for such a key builds it again: the
  number of grids built by a sequence of calls is the number of its calls for keys that
  are not stored. The stored grids are those registered by \<open>__init__\<close>: for each
  resolution of \<open>coords_res\<close>, the grid of each of its \<open>levels\<close> halvings, and none when
  \<open>coords_res\<close> is \<open>None\<close>.
\<close>

theorem coordinate_lookup_behaviour:
  "buffers (get_all st calls) = buffers st
   \<and> computed (get_all st calls)
       = computed st + length (filter (\<lambda>(b, h, w). buffers st (h, w) = None) calls)
   \<and> (\<forall>g. buffers st (h, w) = Some g \<longrightarrow> get_image_coordinates st b h w = (expand b g, st))
   \<and> (buffers st (h, w) = None \<longrightarrow>
         get_image_coordinates st b h w
           = (expand b (cache_image_coordinates h w), st\<lparr>computed := computed st + 1\<rparr>))
   \<and> (\<forall>res i. res \<in> set rs \<and> i < n \<longrightarrow>
         register_coords n (Some rs) (fst res div 2 ^ i, snd res div 2 ^ i)
           = Some (cache_image_coordinates (fst res div 2 ^ i) (snd res div 2 ^ i)))
   \<and> register_coords n None (h, w) = None"
proof (intro conjI allI impI)
  show "buffers (get_all st calls) = buffers st" by (rule get_all_buffers)
  show "computed (get_all st calls)
       = computed st + length (filter (\<lambda>(b, h, w). buffers st (h, w) = None) calls)"
    by (rule get_all_computed)
  show "get_image_coordinates st b h w = (expand b g, st)" if "buffers st (h, w) = Some g" for g
    using that by (simp add: get_image_coordinates_def)
  show "get_image_coordinates st b h w
           = (expand b (cache_image_coordinates h w), st\<lparr>computed := computed st + 1\<rparr>)"
    if "buffers st (h, w) = None"
    using that by (simp add: get_image_coordinates_def)
  show "register_coords n (Some rs) (fst res div 2 ^ i, snd res div 2 ^ i)
           = Some (cache_image_coordinates (fst res div 2 ^ i) (snd res div 2 ^ i))"
    if "res \<in> set rs \<and> i < n" for res i
    using that by (auto simp: register_coords_lookup)
  show "register_coords n None (h, w) = None" by (simp add: register_coords_def)
qed

theorem coordinate_lookup_behaviour_witness:
  "buffers (get_all \<lparr>buffers = register_coords 2 (Some [(8, 8)]), computed = 0\<rparr>
              [(1, 8, 8), (2, 4, 4), (1, 5, 5), (1, 5, 5)]) (4, 4)
     = Some (cache_image_coordinates 4 4)
   \<and> computed (get_all \<lparr>buffers = register_coords 2 (Some [(8, 8)]), computed = 0\<rparr>
              [(1, 8, 8), (2, 4, 4), (1, 5, 5), (1, 5, 5)]) = 2
   \<and> get_image_coordinates \<lparr>buffers = register_coords 2 (Some [(8, 8)]), computed = 0\<rparr> 2 4 4
       = (expand 2 (cache_image_coordinates 4 4),
          \<lparr>buffers = register_coords 2 (Some [(8, 8)]), computed = 0\<rparr>)"
proof -
  let ?st = "\<lparr>buffers = register_coords 2 (Some [(8, 8)]), computed = 0\<rparr>"
  let ?calls = "[(1, 8, 8), (2, 4, 4), (1, 5, 5), (1, 5, 5)] :: (nat \<times> nat \<times> nat) list"
  note t = coordinate_lookup_behaviour [of ?st ?calls 4 4 2 "[(8, 8)]" 2]
  have r88: "register_coords 2 (Some [(8, 8)]) (8, 8) = Some (cache_image_coordinates 8 8)"
    using t by (auto dest: spec [of _ "(8, 8)"] spec [of _ 0])
  have r44: "register_coords 2 (Some [(8, 8)]) (4, 4) = Some (cache_image_coordinates 4 4)"
    using t by (auto dest!: spec [of _ "(8, 8)"] spec [of _ 1])
  have r55: "register_coords 2 (Some [(8, 8)]) (5, 5) = None"
  proof -
    have u: "[0..<2] = [0, Suc 0]" by (simp add: numeral_2_eq_2)
    show ?thesis by (simp add: register_coords_def u)
  qed
  from t r88 r44 r55 show ?thesis by simp
qed

text \<open>
  Claim C6: in a forward pass of a decoder built with \<open>unify_level\<close> set to a level of
  the decoder (\<open>1 \<le> unify_level \<le> levels\<close>), the pass returns, and its trace is the one
  the claim describes: each level below \<open>unify_level - 1\<close> calls its own generator, the
  shared generator \<open>weight_blocks[unify_level - 1]\<close> is called exactly once, at level
  \<open>unify_level - 1\<close>, and that level and every level after it are given the slice
  \<open>[_ranges[i], _ranges[i + 1])\<close> of that one output, with
  \<open>i = level - unify_level + 1\<close>. The range table built by \<open>__init__\<close> holds the
  running sums of the parameter counts of the unified levels, so that the slices are
  contiguous, and the shared generator produces the sum of these counts.
\<close>

theorem shared_generator_once:
  assumes "MultiScaleDecoder_init params (Some ul) = Inr d" "1 \<le> ul" "ul \<le> int (length params)"
  shows "\<exists>p trace. MultiScaleDecoder_forward d gen blk prep s = Inr (p, trace)
     \<and> p = claimed_output d gen blk prep s (length params)
     \<and> trace = concat (map (claimed_events d gen s) [0..<length params])
     \<and> length (filter (\<lambda>e. e = Invoke (nat (ul - 1))) trace) = 1
     \<and> (\<forall>level. nat (ul - 1) \<le> level \<and> level < length params \<longrightarrow>
          Apply level (py_slice (decoder_ranges d ! (level - nat (ul - 1)))
                         (decoder_ranges d ! (level - nat (ul - 1) + 1))
                         (gen (nat (ul - 1)) s)) \<in> set trace
          \<and> decoder_ranges d ! (level - nat (ul - 1))
              = sum_list (take (level - nat (ul - 1)) (drop (nat (ul - 1)) params))
          \<and> decoder_ranges d ! (level - nat (ul - 1) + 1)
              = decoder_ranges d ! (level - nat (ul - 1)) + params ! level)
     \<and> weight_blocks d ! nat (ul - 1) = sum_list (drop (nat (ul - 1)) params)"
proof -
  let ?k = "nat (ul - 1)" and ?n = "length params"
  let ?f = "\<lambda>i. sum_list (take i (drop ?k params))"
  note shape = decoder_init_shape [OF assms]
  have ul: "unify_level d = int ?k + 1" using assms(2) by (simp add: shape)
  have k: "?k < levels d" using assms(2,3) by (simp add: shape)
  have kn: "?k < ?n" using k by (simp add: shape)
  have wb: "length (weight_blocks d) = Suc ?k" using kn by (simp add: shape)
  have rg: "length (decoder_ranges d) = Suc (levels d - ?k)" by (simp add: shape)
  let ?trace = "concat (map (claimed_events d gen s) [0..<?n])"
  have fl: "forward_levels d gen blk prep s [0..<levels d] (None, None, [])
         = Inr (claimed_output d gen blk prep s (levels d), w_after d gen s (levels d),
                concat (map (claimed_events d gen s) [0..<levels d]))"
    by (rule forward_levels_prefix [OF ul wb rg k order_refl])
  have fw: "MultiScaleDecoder_forward d gen blk prep s
              = Inr (claimed_output d gen blk prep s ?n, ?trace)"
    by (simp add: MultiScaleDecoder_forward_def fl) (simp add: shape(1))
  have cnt: "length (filter (\<lambda>e. e = Invoke ?k) ?trace) = 1"
    using invoke_count [of ?k d gen s ?n] kn by (simp add: shape(2))
  have lv: "Apply level (py_slice (decoder_ranges d ! (level - ?k))
                         (decoder_ranges d ! (level - ?k + 1)) (gen ?k s)) \<in> set ?trace
          \<and> decoder_ranges d ! (level - ?k) = ?f (level - ?k)
          \<and> decoder_ranges d ! (level - ?k + 1) = decoder_ranges d ! (level - ?k) + params ! level"
    if "?k \<le> level \<and> level < ?n" for level
  proof -
    from that have kl: "?k \<le> level" and ln: "level < ?n" by simp_all
    have "claimed_weights d gen s level = py_slice (decoder_ranges d ! (level - ?k))
                         (decoder_ranges d ! (level - ?k + 1)) (gen ?k s)"
      using kl by (simp add: claimed_weights_def shape(2) Let_def)
    then have "Apply level (py_slice (decoder_ranges d ! (level - ?k))
                         (decoder_ranges d ! (level - ?k + 1)) (gen ?k s))
                 \<in> set (claimed_events d gen s level)"
      by (simp add: claimed_events_def)
    moreover have "level \<in> set [0..<?n]" using ln by simp
    ultimately have A: "Apply level (py_slice (decoder_ranges d ! (level - ?k))
                         (decoder_ranges d ! (level - ?k + 1)) (gen ?k s)) \<in> set ?trace"
      unfolding set_concat set_map by blast
    have i: "level - ?k < length (drop ?k params)" using kl ln by simp
    have nm: "map ?f [0..<Suc (?n - ?k)] ! i = ?f i" if "i < Suc (?n - ?k)" for i
      using that nth_map_upt [of i "Suc (?n - ?k)" 0 ?f] by simp
    have B: "decoder_ranges d ! (level - ?k) = ?f (level - ?k)"
      unfolding shape(4) using kl ln by (intro nm) simp
    have C0: "decoder_ranges d ! (level - ?k + 1) = ?f (Suc (level - ?k))"
      unfolding shape(4) using kl ln nm [of "Suc (level - ?k)"] by simp
    have "drop ?k params ! (level - ?k) = params ! level" using kl ln by simp
    with sum_take_Suc [OF i] have "?f (Suc (level - ?k)) = ?f (level - ?k) + params ! level"
      by simp
    with B C0 have C: "decoder_ranges d ! (level - ?k + 1)
        = decoder_ranges d ! (level - ?k) + params ! level" by simp
    from A B C show ?thesis by blast
  qed
  have sh: "weight_blocks d ! ?k = sum_list (drop ?k params)"
    unfolding shape(3) using kn by (simp add: nth_append)
  from fw cnt lv sh show ?thesis by blast
qed

lemma witness_decoder:
  "MultiScaleDecoder_init [1, 2, 3] (Some 2)
     = Inr \<lparr>levels = 3, unify_level = 2, level_params = [1, 2, 3], weight_blocks = [1, 5],
            decoder_ranges = [0, 2, 5]\<rparr>"
  by code_simp

theorem shared_generator_once_witness:
  "\<exists>d. MultiScaleDecoder_init [1, 2, 3] (Some 2) = Inr d
     \<and> MultiScaleDecoder_forward d
         (\<lambda>k s. if k = 0 then [s] else [s + 1, s + 2, s + 3, s + 4, s + 5])
         (\<lambda>level p w. p + sum_list w) (\<lambda>level p. case p of None \<Rightarrow> 0 | Some q \<Rightarrow> q) (10 :: nat)
       = Inr (Some 75,
              [Invoke 0, Apply 0 [10], Invoke 1, Apply 1 [11, 12], Apply 2 [13, 14, 15]])"
proof -
  let ?d = "\<lparr>levels = 3, unify_level = 2, level_params = [1, 2, 3], weight_blocks = [1, 5],
            decoder_ranges = [0, 2, 5]\<rparr>"
  let ?gen = "\<lambda>k s::nat. if k = 0 then [s] else [s + 1, s + 2, s + 3, s + 4, s + 5]"
  let ?blk = "\<lambda>(level::nat) (p::nat) w. p + sum_list w"
  let ?prep = "\<lambda>(level::nat) p. case p of None \<Rightarrow> 0::nat | Some q \<Rightarrow> q"
  have pre: "(1::int) \<le> 2" "(2::int) \<le> int (length [1, 2, 3 :: int])" by simp_all
  from shared_generator_once [OF witness_decoder pre, of ?gen ?blk ?prep 10]
  obtain p trace where fw: "MultiScaleDecoder_forward ?d ?gen ?blk ?prep 10 = Inr (p, trace)"
    and p: "p = claimed_output ?d ?gen ?blk ?prep 10 (length [1, 2, 3 :: int])"
    and tr: "trace = concat (map (claimed_events ?d ?gen 10) [0..<length [1, 2, 3 :: int]])"
    by blast
  have u: "[0..<length [1, 2, 3 :: int]] = [0, Suc 0, Suc (Suc 0)]" by (simp add: upt_rec)
  have w0: "claimed_weights ?d ?gen 10 0 = [10]"
    by (simp add: claimed_weights_def)
  have w1: "claimed_weights ?d ?gen 10 (Suc 0) = [11, 12]"
    by (simp add: claimed_weights_def py_slice_def)
  have w2: "claimed_weights ?d ?gen 10 (Suc (Suc 0)) = [13, 14, 15]"
    by (simp add: claimed_weights_def py_slice_def)
  have "trace = [Invoke 0, Apply 0 [10], Invoke 1, Apply 1 [11, 12], Apply 2 [13, 14, 15]]"
    unfolding tr u by (simp add: claimed_events_def w0 w1 w2)
  moreover have "p = Some 75"
  proof -
    have l3: "length [1, 2, 3 :: int] = Suc (Suc (Suc 0))" by simp
    show ?thesis unfolding p l3 claimed_output.simps w0 w1 w2 by simp
  qed
  ultimately show ?thesis using fw witness_decoder by simp
qed

section \<open>Claims about the patch convolution\<close>




end
